theory Spec2Isabelle
  imports Main "HOL-Library.Log_Nat" "HOL-Library.Word"
begin

section \<open>Pixel feed: JavaScript numbers\<close>

text \<open>
  \<^verbatim>\<open>main.js\<close> computes with JavaScript Numbers, which are IEEE 754 binary64 values.
  A finite Number is a rational, and the model represents it by that rational. Every
  arithmetic operator of the language returns the exact result rounded to the nearest
  binary64 value, ties to the even significand; the significand has 53 bits.

  The model does not bound the exponent and has no NaN and no infinity. The operands of
  the script are finite (bytes, sizes, the contrast factor), and the only divisors are the
  constants 3 and 2 and the sum of the two sizes; a zero sum is a case of its own in the
  model of the sampler. Where a product with the contrast factor would overflow in
  binary64, the script clamps the result to \<open>[0, 255]\<close> next, and the clamp of the infinity
  and of the large finite value agree.
\<close>

type_synonym number = rat

text \<open>Rounding a rational to the nearest integer, a tie to the even one.\<close>

definition round_half_even :: "rat \<Rightarrow> int" where
  "round_half_even x =
     (let n = \<lfloor>x\<rfloor>; f = x - of_int n
      in if f < 1 / 2 then n else if 1 / 2 < f then n + 1 else if even n then n else n + 1)"

text \<open>
  The exponent \<open>e\<close> of a non-zero rational: \<open>2\<^sup>e \<le> \<bar>x\<bar> < 2\<^sup>e\<^sup>+\<^sup>1\<close>. The bit lengths of numerator
  and denominator give it up to one, the comparison decides.
\<close>

definition binade :: "rat \<Rightarrow> int" where
  "binade x =
     (let (a, b) = quotient_of \<bar>x\<bar>; k = bitlen a - bitlen b
      in if 2 powi k \<le> \<bar>x\<bar> then k else k - 1)"

text \<open>The nearest number with a significand of 53 bits.\<close>

definition binary64 :: "rat \<Rightarrow> number" where
  "binary64 x =
     (if x = 0 then 0
      else let e = binade x - 52
           in of_int (round_half_even (x / 2 powi e)) * 2 powi e)"

text \<open>The operators \<^verbatim>\<open>+\<close>, \<^verbatim>\<open>-\<close>, \<^verbatim>\<open>*\<close> and \<^verbatim>\<open>/\<close> on Numbers.\<close>

definition jadd :: "number \<Rightarrow> number \<Rightarrow> number" where
  "jadd x y = binary64 (x + y)"

definition jsub :: "number \<Rightarrow> number \<Rightarrow> number" where
  "jsub x y = binary64 (x - y)"

definition jmul :: "number \<Rightarrow> number \<Rightarrow> number" where
  "jmul x y = binary64 (x * y)"

definition jdiv :: "number \<Rightarrow> number \<Rightarrow> number" where
  "jdiv x y = binary64 (x / y)"

section \<open>The frame sampler and the pixel renderer\<close>

subsection \<open>Configuration and canvases\<close>

text \<open>
  The three module variables of lines 10 to 14. The two sizes count canvas pixels and are
  whole numbers; the contrast factor is any finite Number. The script never assigns them
  again, so every function that reads them takes the configuration as an argument.
\<close>

record config =
  pixelSize :: nat
  gapSize :: nat
  contrast :: number

definition settings :: config where
  "settings = \<lparr>pixelSize = 3, gapSize = 3, contrast = 2\<rparr>"

text \<open>The dimensions of a canvas element; \<open>drawToCanvas\<close> sets the main canvas to 640 by 480.\<close>

record canvas =
  width :: nat
  height :: nat

definition mainCanvas :: canvas where
  "mainCanvas = \<lparr>width = 640, height = 480\<rparr>"

text \<open>
  \<open>createSmallCanvas\<close>, lines 84 to 97. When both sizes are zero the script divides by
  zero and the quotient is an infinity or NaN, not a finite Number; the model gives that
  case the result \<open>None\<close>.
\<close>

definition createSmallCanvas :: "config \<Rightarrow> canvas \<Rightarrow> canvas option" where
  "createSmallCanvas cfg canvas =
     (let cell = jadd (of_nat (pixelSize cfg)) (of_nat (gapSize cfg))
      in if cell = 0 then None
         else
           let effectiveWidth = jdiv (of_nat (width canvas)) cell;
               effectiveHeight = jdiv (of_nat (height canvas)) cell
           in Some \<lparr>width = nat \<lfloor>effectiveWidth\<rfloor>, height = nat \<lfloor>effectiveHeight\<rfloor>\<rparr>)"

subsection \<open>Image data\<close>

type_synonym byte = "8 word"

definition num :: "byte \<Rightarrow> number" where
  "num v = of_nat (unat v)"

text \<open>
  What \<open>drawImage\<close> leaves on the small canvas is the platform's scaling of the video
  frame: a pixel for each position, red, green, blue and alpha. \<open>getImageData\<close>, lines 107
  to 110, returns it as one array of bytes, row after row, four bytes a pixel; the platform
  raises \<^verbatim>\<open>IndexSizeError\<close> for an empty rectangle, which is the result \<open>None\<close>.
\<close>

type_synonym pixel = "byte \<times> byte \<times> byte \<times> byte"

type_synonym bitmap = "nat \<Rightarrow> nat \<Rightarrow> pixel"

definition getImageData :: "bitmap \<Rightarrow> canvas \<Rightarrow> byte list option" where
  "getImageData bm smallCanvas =
     (if width smallCanvas = 0 \<or> height smallCanvas = 0 then None
      else Some (concat (map (\<lambda>i. case bm (i mod width smallCanvas) (i div width smallCanvas) of
                                     (r, g, b, a) \<Rightarrow> [r, g, b, a])
                            [0 ..< width smallCanvas * height smallCanvas])))"

subsection \<open>The drawing context\<close>

text \<open>
  The 2D context of the main canvas: the current fill style and what has been painted
  since the surface was last cleared, in painting order. The script paints discs only
  (\<open>beginPath\<close>, a full \<open>arc\<close>, \<open>closePath\<close>, \<open>fill\<close>), each in the fill style current
  at that moment.
\<close>

datatype colour = Rgba number number number number

record circle =
  fill :: colour
  centre_x :: number
  centre_y :: number
  circle_radius :: number

record context2d =
  fillStyle :: colour
  painted :: "circle list"

text \<open>\<open>clearMainCanvas\<close>, lines 113 to 115: \<open>clearRect\<close> over the whole canvas.\<close>

definition clearMainCanvas :: "context2d \<Rightarrow> context2d" where
  "clearMainCanvas context = context\<lparr>painted := []\<rparr>"

text \<open>\<open>convertToGrayscale\<close>, lines 118 to 120.\<close>

definition convertToGrayscale :: "number \<Rightarrow> number \<Rightarrow> number \<Rightarrow> number" where
  "convertToGrayscale r g b = jdiv (jadd (jadd r g) b) 3"

text \<open>\<open>adjustContrast\<close>, lines 123 to 127.\<close>

definition adjustContrast :: "config \<Rightarrow> number \<Rightarrow> number" where
  "adjustContrast cfg grayscale =
     (let grayscale = jadd 128 (jmul (jsub grayscale 128) (contrast cfg))
      in max 0 (min 255 grayscale))"

text \<open>\<open>drawCircle\<close>, lines 130 to 135.\<close>

definition drawCircle :: "context2d \<Rightarrow> number \<Rightarrow> number \<Rightarrow> number \<Rightarrow> context2d" where
  "drawCircle ctx centerX centerY radius =
     ctx\<lparr>painted := painted ctx @
           [\<lparr>fill = fillStyle ctx, centre_x = centerX, centre_y = centerY,
             circle_radius = radius\<rparr>]\<rparr>"

text \<open>
  \<open>drawPixelatedImage\<close>, lines 139 to 164. \<open>drawSample\<close> is the body of the inner loop,
  \<open>drawRow\<close> the inner loop from column \<open>x\<close> on, \<open>drawRows\<close> the outer loop from row \<open>y\<close>
  on. A read beyond the end of \<open>data\<close> yields \<^verbatim>\<open>undefined\<close>, which is not a Number: the
  result is \<open>None\<close>.
\<close>

definition drawSample ::
  "config \<Rightarrow> byte list \<Rightarrow> canvas \<Rightarrow> nat \<Rightarrow> nat \<Rightarrow> context2d \<Rightarrow> context2d option" where
  "drawSample cfg data smallCanvas y x context =
     (let index = (y * width smallCanvas + x) * 4
      in if index + 2 < length data then
           let r = num (data ! index);
               g = num (data ! (index + 1));
               b = num (data ! (index + 2));
               grayscale = convertToGrayscale r g b;
               grayscale = adjustContrast cfg grayscale;
               context = context\<lparr>fillStyle := Rgba grayscale grayscale grayscale 1\<rparr>
           in Some (drawCircle context
                      (jmul (of_nat x) (jadd (of_nat (pixelSize cfg)) (of_nat (gapSize cfg))))
                      (jmul (of_nat y) (jadd (of_nat (pixelSize cfg)) (of_nat (gapSize cfg))))
                      (jdiv (of_nat (pixelSize cfg)) 2))
         else None)"

function drawRow ::
  "config \<Rightarrow> byte list \<Rightarrow> canvas \<Rightarrow> nat \<Rightarrow> nat \<Rightarrow> context2d \<Rightarrow> context2d option" where
  "drawRow cfg data smallCanvas y x context =
     (if x < width smallCanvas then
        (case drawSample cfg data smallCanvas y x context of
           None \<Rightarrow> None
         | Some context' \<Rightarrow> drawRow cfg data smallCanvas y (x + 1) context')
      else Some context)"
  by pat_completeness auto
termination
  by (relation "measure (\<lambda>(cfg, data, smallCanvas, y, x, context). width smallCanvas - x)") auto

function drawRows ::
  "config \<Rightarrow> byte list \<Rightarrow> canvas \<Rightarrow> nat \<Rightarrow> context2d \<Rightarrow> context2d option" where
  "drawRows cfg data smallCanvas y context =
     (if y < height smallCanvas then
        (case drawRow cfg data smallCanvas y 0 context of
           None \<Rightarrow> None
         | Some context' \<Rightarrow> drawRows cfg data smallCanvas (y + 1) context')
      else Some context)"
  by pat_completeness auto
termination
  by (relation "measure (\<lambda>(cfg, data, smallCanvas, y, context). height smallCanvas - y)") auto

definition drawPixelatedImage ::
  "config \<Rightarrow> byte list \<Rightarrow> canvas \<Rightarrow> context2d \<Rightarrow> context2d option" where
  "drawPixelatedImage cfg data smallCanvas context = drawRows cfg data smallCanvas 0 context"

text \<open>
  \<open>applyPixelatedFilter\<close>, lines 167 to 180. \<open>video\<close> gives, for a small canvas, the
  bitmap that \<open>drawVideoOnSmallCanvas\<close> leaves on it.
\<close>

definition applyPixelatedFilter ::
  "config \<Rightarrow> canvas \<Rightarrow> (canvas \<Rightarrow> bitmap) \<Rightarrow> context2d \<Rightarrow> context2d option" where
  "applyPixelatedFilter cfg canvas video context =
     (case createSmallCanvas cfg canvas of
        None \<Rightarrow> None
      | Some smallCanvas \<Rightarrow>
          (case getImageData (video smallCanvas) smallCanvas of
             None \<Rightarrow> None
           | Some data \<Rightarrow> drawPixelatedImage cfg data smallCanvas (clearMainCanvas context)))"

subsection \<open>The renderer as the specification words it\<close>

text \<open>
  The disc the specification asks for at grid coordinate \<open>(x, y)\<close> of a raster buffer that
  is \<open>w\<close> samples wide: grayscale \<open>(r + g + b) / 3\<close>, contrast
  \<open>128 + (grayscale - 128) * contrastFactor\<close> clamped to \<open>[0, 255]\<close>, that value as an opaque
  fill colour, centre \<open>(x * (pixelSize + gapSize), y * (pixelSize + gapSize))\<close> and radius
  \<open>pixelSize / 2\<close>, all in the arithmetic of Numbers.
\<close>

definition sample_circle :: "config \<Rightarrow> byte list \<Rightarrow> nat \<Rightarrow> nat \<times> nat \<Rightarrow> circle" where
  "sample_circle cfg data w = (\<lambda>(x, y).
     let r = num (data ! (4 * (y * w + x)));
         g = num (data ! (4 * (y * w + x) + 1));
         b = num (data ! (4 * (y * w + x) + 2));
         grayscale = jdiv (jadd (jadd r g) b) 3;
         v = max 0 (min 255 (jadd 128 (jmul (jsub grayscale 128) (contrast cfg))));
         cell = jadd (of_nat (pixelSize cfg)) (of_nat (gapSize cfg))
     in \<lparr>fill = Rgba v v v 1,
         centre_x = jmul (of_nat x) cell,
         centre_y = jmul (of_nat y) cell,
         circle_radius = jdiv (of_nat (pixelSize cfg)) 2\<rparr>)"

text \<open>Row-major order of a grid: \<open>y\<close> outer, \<open>x\<close> inner.\<close>

definition row_major :: "nat \<Rightarrow> nat \<Rightarrow> (nat \<times> nat) list" where
  "row_major w h = concat (map (\<lambda>y. map (\<lambda>x. (x, y)) [0 ..< w]) [0 ..< h])"

text \<open>Painting discs in order, each in its own colour, on top of what the context holds.\<close>

definition paint :: "circle list \<Rightarrow> context2d \<Rightarrow> context2d" where
  "paint cs context =
     \<lparr>fillStyle = (if cs = [] then fillStyle context else fill (last cs)),
      painted = painted context @ cs\<rparr>"

text \<open>The mid-grey disc at a grid coordinate.\<close>

definition grey_circle :: "config \<Rightarrow> nat \<times> nat \<Rightarrow> circle" where
  "grey_circle cfg = (\<lambda>(x, y).
     \<lparr>fill = Rgba 128 128 128 1,
      centre_x = jmul (of_nat x) (jadd (of_nat (pixelSize cfg)) (of_nat (gapSize cfg))),
      centre_y = jmul (of_nat y) (jadd (of_nat (pixelSize cfg)) (of_nat (gapSize cfg))),
      circle_radius = jdiv (of_nat (pixelSize cfg)) 2\<rparr>)"

text \<open>Raster buffers of two by two samples and a used context, to run the renderer on.\<close>

definition frame4 :: "byte list" where
  "frame4 = [128, 128, 128, 255,  130, 130, 130, 255,
             255, 255, 255, 255,  200, 200, 200, 255]"

definition grey4 :: "byte list" where
  "grey4 = [128, 128, 128, 255,  128, 128, 128, 255,
            128, 128, 128, 255,  128, 128, 128, 255]"

definition grid2 :: canvas where
  "grid2 = \<lparr>width = 2, height = 2\<rparr>"

definition used_context :: context2d where
  "used_context = \<lparr>fillStyle = Rgba 7 7 7 1, painted = [grey_circle settings (5, 5)]\<rparr>"

section \<open>The recording controller\<close>

text \<open>
  The page script keeps four pieces of mutable state for recording: the variable
  \<^verbatim>\<open>mediaRecorder\<close> (undefined until the camera promise resolves), the array
  \<^verbatim>\<open>recordedChunks\<close>, the \<^verbatim>\<open>disabled\<close> property of the two buttons, and the
  download anchor. Every callback of the script is modelled as a function from the page
  state to the page state; the record handler, which can end in an exception of the
  platform, returns that exception as well.
\<close>

subsection \<open>Data\<close>

text \<open>A \<^verbatim>\<open>Blob\<close>: its bytes and its MIME type; \<^verbatim>\<open>blob.size\<close> is the number of bytes.\<close>

record blob =
  bytes :: "byte list"
  mime :: string

definition size_blob :: "blob \<Rightarrow> nat" where
  "size_blob b = length (bytes b)"

text \<open>\<^verbatim>\<open>new Blob(parts, { type: t })\<close> concatenates the parts in order.\<close>

definition Blob :: "blob list \<Rightarrow> string \<Rightarrow> blob" where
  "Blob parts t = \<lparr>bytes = concat (map bytes parts), mime = t\<rparr>"

text \<open>
  The \<^verbatim>\<open>state\<close> attribute of a \<^verbatim>\<open>MediaRecorder\<close>. The script never pauses a recorder,
  so only the two values it can produce are kept. \<^verbatim>\<open>start()\<close> and \<^verbatim>\<open>stop()\<close> are
  calls into the platform. \<^verbatim>\<open>start()\<close> throws \<^verbatim>\<open>InvalidStateError\<close> unless the recorder is
  inactive, and leaves the recorder as it was; otherwise the recorder is recording.
  \<^verbatim>\<open>stop()\<close> makes the recorder inactive and does nothing to an inactive one.
\<close>

datatype recording_state = Inactive | Recording

record media_recorder =
  state :: recording_state

datatype dom_exception = InvalidStateError

definition start :: "media_recorder \<Rightarrow> dom_exception + media_recorder" where
  "start r = (if state r = Inactive then Inr (r\<lparr>state := Recording\<rparr>) else Inl InvalidStateError)"

definition stop :: "media_recorder \<Rightarrow> media_recorder" where
  "stop r = r\<lparr>state := Inactive\<rparr>"

record button =
  disabled :: bool

text \<open>
  An object URL made by \<^verbatim>\<open>URL.createObjectURL\<close> names the blob it was made from; any
  other address the anchor may carry when the page loads is a plain string.
\<close>

datatype url = ObjectURL blob | Address string

definition createObjectURL :: "blob \<Rightarrow> url" where
  "createObjectURL b = ObjectURL b"

record anchor =
  href :: url
  download :: string
  display :: string

text \<open>The page: \<^verbatim>\<open>None\<close> is JavaScript's \<^verbatim>\<open>undefined\<close> for \<^verbatim>\<open>mediaRecorder\<close>.\<close>

record page =
  mediaRecorder :: "media_recorder option"
  recordedChunks :: "blob list"
  recordButton :: button
  stopButton :: button
  downloadLink :: anchor

subsection \<open>Callbacks\<close>

text \<open>
  The \<^verbatim>\<open>then\<close> branch of \<^verbatim>\<open>getUserMedia\<close>: a new recorder on the canvas stream,
  inactive until started. The \<^verbatim>\<open>catch\<close> branch only logs.
\<close>

definition streamReady :: "page \<Rightarrow> page" where
  "streamReady s = s\<lparr>mediaRecorder := Some \<lparr>state = Inactive\<rparr>\<rparr>"

definition streamFailed :: "page \<Rightarrow> page" where
  "streamFailed s = s"

text \<open>\<^verbatim>\<open>mediaRecorder.ondataavailable\<close>, lines 42 to 46.\<close>

definition ondataavailable :: "blob \<Rightarrow> page \<Rightarrow> page" where
  "ondataavailable d s =
     (if size_blob d > 0 then s\<lparr>recordedChunks := recordedChunks s @ [d]\<rparr> else s)"

text \<open>\<^verbatim>\<open>mediaRecorder.onstop\<close>, lines 49 to 55.\<close>

definition onstop :: "page \<Rightarrow> page" where
  "onstop s =
     (let blob = Blob (recordedChunks s) ''video/webm'';
          url = createObjectURL blob
      in s\<lparr>downloadLink :=
            (downloadLink s)\<lparr>href := url,
                              download := ''pixelated-recording.webm'',
                              display := ''block''\<rparr>\<rparr>)"

text \<open>
  The click handler of the record button, lines 62 to 69, statement by statement:
  \<open>clearChunks\<close> is line 64, then \<^verbatim>\<open>start()\<close> on line 65. The script catches nothing, so
  an exception of \<^verbatim>\<open>start()\<close> ends the handler there: lines 66 and 67 do not run and the
  page stays as line 64 left it. The result is the exception, if one was thrown, and the
  page the handler leaves.
\<close>

definition clearChunks :: "page \<Rightarrow> page" where
  "clearChunks s = s\<lparr>recordedChunks := []\<rparr>"

definition recordClick :: "page \<Rightarrow> dom_exception option \<times> page" where
  "recordClick s =
     (case mediaRecorder s of
        None \<Rightarrow> (None, s)
      | Some r \<Rightarrow>
          (let s1 = clearChunks s
           in case start r of
                Inl e \<Rightarrow> (Some e, s1)
              | Inr r' \<Rightarrow>
                  (let s2 = s1\<lparr>mediaRecorder := Some r'\<rparr>;
                       s3 = s2\<lparr>recordButton := (recordButton s2)\<lparr>disabled := True\<rparr>\<rparr>
                   in (None, s3\<lparr>stopButton := (stopButton s3)\<lparr>disabled := False\<rparr>\<rparr>))))"

text \<open>The click handler of the stop button, lines 72 to 78.\<close>

definition stopClick :: "page \<Rightarrow> page" where
  "stopClick s =
     (case mediaRecorder s of
        None \<Rightarrow> s
      | Some r \<Rightarrow>
          (let s1 = s\<lparr>mediaRecorder := Some (stop r)\<rparr>;
               s2 = s1\<lparr>recordButton := (recordButton s1)\<lparr>disabled := False\<rparr>\<rparr>
           in s2\<lparr>stopButton := (stopButton s2)\<lparr>disabled := True\<rparr>\<rparr>))"

subsection \<open>Event sequences\<close>

text \<open>
  What the browser can deliver to the script. The two recorder events have a handler only
  once the recorder exists; before that they reach nothing. After a handler that threw,
  the page goes on from the state the handler left.
\<close>

datatype event =
    StreamReady | StreamFailed
  | RecordClick | StopClick
  | DataAvailable blob | Stop

fun handle :: "event \<Rightarrow> page \<Rightarrow> page" where
  "handle StreamReady s = streamReady s"
| "handle StreamFailed s = streamFailed s"
| "handle RecordClick s = snd (recordClick s)"
| "handle StopClick s = stopClick s"
| "handle (DataAvailable d) s = (if mediaRecorder s = None then s else ondataavailable d s)"
| "handle Stop s = (if mediaRecorder s = None then s else onstop s)"

fun run :: "event list \<Rightarrow> page \<Rightarrow> page" where
  "run [] s = s"
| "run (e # es) s = run es (handle e s)"

text \<open>
  The state when the script has been loaded: no recorder, no chunks. The markup of the
  page is not part of the script, so the initial button flags and anchor are parameters.
\<close>

definition loaded :: "button \<Rightarrow> button \<Rightarrow> anchor \<Rightarrow> page" where
  "loaded rb sb a =
     \<lparr>mediaRecorder = None, recordedChunks = [], recordButton = rb, stopButton = sb,
      downloadLink = a\<rparr>"

text \<open>
  The chunks a sequence of events delivers that the data handler keeps: those of positive
  size, in order of arrival.
\<close>

fun delivered :: "event list \<Rightarrow> blob list" where
  "delivered [] = []"
| "delivered (DataAvailable d # es) =
     (if 0 < size_blob d then d # delivered es else delivered es)"
| "delivered (e # es) = delivered es"

text \<open>Concrete values used to run the model.\<close>

definition chunk1 :: blob where
  "chunk1 = \<lparr>bytes = [26, 69, 223, 163], mime = ''video/webm''\<rparr>"

definition chunk0 :: blob where
  "chunk0 = \<lparr>bytes = [], mime = ''video/webm''\<rparr>"

definition page0 :: page where
  "page0 = loaded \<lparr>disabled = False\<rparr> \<lparr>disabled = True\<rparr>
             \<lparr>href = Address [], download = [], display = ''none''\<rparr>"

section \<open>Properties of the number model\<close>

lemma round_half_even_error: "\<bar>of_int (round_half_even x) - x\<bar> \<le> 1 / 2"
proof -
  have "of_int \<lfloor>x\<rfloor> \<le> x" and "x < of_int \<lfloor>x\<rfloor> + 1"
    by linarith+
  then show ?thesis
    unfolding round_half_even_def Let_def
    by (simp split: if_splits)
qed

lemma round_half_even_of_int [simp]: "round_half_even (of_int k) = k"
  by (simp add: round_half_even_def)

lemma round_half_even_ge:
  assumes "of_int k \<le> x"
  shows "k \<le> round_half_even x"
proof -
  have "x - 1 / 2 \<le> of_int (round_half_even x)"
    using round_half_even_error [of x] by linarith
  with assms have "(of_int k :: rat) - 1 / 2 \<le> of_int (round_half_even x)"
    by linarith
  then have "(of_int k :: rat) < of_int (round_half_even x) + 1"
    by linarith
  then have "k < round_half_even x + 1"
    by (metis of_int_1 of_int_add of_int_less_iff)
  then show ?thesis by simp
qed

lemma round_half_even_less:
  assumes "x < of_int k - 1 / 2"
  shows "round_half_even x < k"
proof -
  have "of_int (round_half_even x) \<le> x + 1 / 2"
    using round_half_even_error [of x] by linarith
  with assms have "(of_int (round_half_even x) :: rat) < of_int k"
    by linarith
  then show ?thesis by simp
qed

lemma binade_bounds:
  assumes "x \<noteq> 0"
  shows "2 powi binade x \<le> \<bar>x\<bar>" and "\<bar>x\<bar> < 2 powi (binade x + 1)"
proof -
  obtain a b where q: "quotient_of \<bar>x\<bar> = (a, b)"
    by (cases "quotient_of \<bar>x\<bar>")
  have b: "0 < b" using q by (rule quotient_of_denom_pos)
  have x: "\<bar>x\<bar> = of_int a / of_int b" using q by (rule quotient_of_div)
  have "0 < \<bar>x\<bar>" using assms by simp
  with x b have a: "0 < a"
    by (simp add: zero_less_divide_iff)
  define k where "k = bitlen a - bitlen b"
  have la: "1 \<le> bitlen a" and lb: "1 \<le> bitlen b"
    using a b by (simp_all add: bitlen_alt_def)
  have a_up: "(of_int a :: rat) < 2 powi bitlen a"
  proof -
    have "a < 2 ^ nat (bitlen a)" using bitlen_bounds [OF a] by simp
    then have "(of_int a :: rat) < of_int (2 ^ nat (bitlen a))"
      by (simp only: of_int_less_iff)
    then show ?thesis using la by (simp add: power_int_def)
  qed
  have b_lo: "(2::rat) powi (bitlen b - 1) \<le> of_int b"
  proof -
    have "2 ^ nat (bitlen b - 1) \<le> b" using bitlen_bounds [OF b] by simp
    then have "(of_int (2 ^ nat (bitlen b - 1)) :: rat) \<le> of_int b"
      by (simp only: of_int_le_iff)
    then show ?thesis using lb by (simp add: power_int_def)
  qed
  have up: "\<bar>x\<bar> < 2 powi (k + 1)"
  proof -
    have "of_int a / of_int b < (2::rat) powi bitlen a / 2 powi (bitlen b - 1)"
      using a_up b_lo a by (intro frac_less) simp_all
    also have "\<dots> = 2 powi (k + 1)"
      by (simp add: k_def power_int_diff [symmetric] algebra_simps)
    finally show ?thesis using x by simp
  qed
  have a_lo: "(2::rat) powi (bitlen a - 1) \<le> of_int a"
  proof -
    have "2 ^ nat (bitlen a - 1) \<le> a" using bitlen_bounds [OF a] by simp
    then have "(of_int (2 ^ nat (bitlen a - 1)) :: rat) \<le> of_int a"
      by (simp only: of_int_le_iff)
    then show ?thesis using la by (simp add: power_int_def)
  qed
  have b_up: "(of_int b :: rat) < 2 powi bitlen b"
  proof -
    have "b < 2 ^ nat (bitlen b)" using bitlen_bounds [OF b] by simp
    then have "(of_int b :: rat) < of_int (2 ^ nat (bitlen b))"
      by (simp only: of_int_less_iff)
    then show ?thesis using lb by (simp add: power_int_def)
  qed
  have lo: "2 powi (k - 1) \<le> \<bar>x\<bar>"
  proof -
    have "(2::rat) powi (k - 1) = 2 powi (bitlen a - 1) / 2 powi bitlen b"
      by (simp add: k_def power_int_diff [symmetric] algebra_simps)
    also have "\<dots> \<le> of_int a / of_int b"
      using a_lo b_up a b by (intro frac_le) simp_all
    finally show ?thesis using x by simp
  qed
  have e: "binade x = (if 2 powi k \<le> \<bar>x\<bar> then k else k - 1)"
    by (simp add: binade_def q k_def)
  show "2 powi binade x \<le> \<bar>x\<bar>"
    using lo by (simp add: e)
  show "\<bar>x\<bar> < 2 powi (binade x + 1)"
    using up by (simp add: e)
qed

lemma pow2_less_iff: "(2::rat) powi m < 2 powi n \<longleftrightarrow> m < n"
proof
  assume l: "(2::rat) powi m < 2 powi n"
  show "m < n"
  proof (rule ccontr)
    assume "\<not> m < n"
    then have "(2::rat) powi n \<le> 2 powi m"
      by (intro power_int_increasing) simp_all
    with l show False by simp
  qed
next
  assume "m < n"
  then show "(2::rat) powi m < 2 powi n"
    by (intro power_int_strict_increasing) simp_all
qed

lemma pow2_pos [simp]: "0 < (2::rat) powi n"
  by (simp add: zero_less_power_int)

lemma binade_unique:
  assumes "2 powi e \<le> \<bar>x\<bar>" and "\<bar>x\<bar> < 2 powi (e + 1)"
  shows "binade x = e"
proof -
  have "0 < \<bar>x\<bar>"
    using pow2_pos [of e] assms(1) by (rule less_le_trans)
  then have nz: "x \<noteq> 0" by simp
  have "(2::rat) powi e < 2 powi (binade x + 1)"
    using assms(1) binade_bounds(2) [OF nz] by (rule le_less_trans)
  then have 1: "e < binade x + 1"
    by (simp only: pow2_less_iff)
  have "(2::rat) powi binade x < 2 powi (e + 1)"
    using binade_bounds(1) [OF nz] assms(2) by (rule le_less_trans)
  then have 2: "binade x < e + 1"
    by (simp only: pow2_less_iff)
  from 1 2 show ?thesis by simp
qed

lemma binary64_eq:
  assumes "x \<noteq> 0"
  shows "binary64 x = of_int (round_half_even (x / 2 powi (binade x - 52))) * 2 powi (binade x - 52)"
  using assms by (simp add: binary64_def Let_def)

lemma binary64_exact:
  assumes "x \<noteq> 0" and "x / 2 powi (binade x - 52) = of_int k"
  shows "binary64 x = x"
proof -
  have "binary64 x = of_int k * 2 powi (binade x - 52)"
    using assms by (simp add: binary64_eq)
  also have "\<dots> = x / 2 powi (binade x - 52) * 2 powi (binade x - 52)"
    using assms(2) by simp
  also have "\<dots> = x"
    by simp
  finally show ?thesis .
qed

lemma binade_pos:
  assumes "0 < x"
  shows "2 powi binade x \<le> x" and "x < 2 powi (binade x + 1)"
proof -
  have "x \<noteq> 0" and "\<bar>x\<bar> = x" using assms by simp_all
  then show "2 powi binade x \<le> x" and "x < 2 powi (binade x + 1)"
    using binade_bounds [of x] by simp_all
qed

lemma binade_less:
  assumes "0 < x" and "x < 2 powi n"
  shows "binade x < n"
proof -
  have "2 powi binade x \<le> x"
    using assms(1) by (rule binade_pos)
  then have "(2::rat) powi binade x < 2 powi n"
    using assms(2) by (rule le_less_trans)
  then show ?thesis by (simp only: pow2_less_iff)
qed

lemma binade_ge:
  assumes "2 powi n \<le> x"
  shows "n \<le> binade x"
proof -
  have pos: "0 < x"
    using pow2_pos [of n] assms by (rule less_le_trans)
  have "x < 2 powi (binade x + 1)"
    using pos by (rule binade_pos)
  with assms have "(2::rat) powi n < 2 powi (binade x + 1)"
    by (rule le_less_trans)
  then have "n < binade x + 1" by (simp only: pow2_less_iff)
  then show ?thesis by simp
qed

lemma pow2_int:
  assumes "0 \<le> n"
  shows "(2::rat) powi n = of_int (2 ^ nat n)"
  using assms by (simp add: power_int_def)

lemma pow2_scale:
  assumes "e \<le> 52"
  shows "(2::rat) powi (e - 52) = 1 / 2 ^ nat (52 - e)"
proof -
  have "(2::rat) powi (e - 52) = 2 powi (- int (nat (52 - e)))"
    using assms by simp
  also have "\<dots> = 1 / 2 ^ nat (52 - e)"
    by (simp only: power_int_minus_divide power_int_of_nat)
  finally show ?thesis .
qed

lemma binary64_of_nat:
  assumes "n < 2 ^ 53"
  shows "binary64 (of_nat n) = of_nat n"
proof (cases "n = 0")
  case True
  then show ?thesis by (simp add: binary64_def)
next
  case False
  let ?x = "of_nat n :: rat"
  have pos: "0 < ?x" using False by simp
  have "?x < of_nat (2 ^ 53)"
    using assms by (simp only: of_nat_less_iff)
  then have "?x < 2 powi 53" by simp
  with pos have "binade ?x < 53" by (rule binade_less)
  then have s: "0 \<le> 52 - binade ?x" by simp
  have "?x / 2 powi (binade ?x - 52) = ?x * 2 powi (52 - binade ?x)"
    by (simp add: power_int_diff)
  also have "\<dots> = of_int (int n * 2 ^ nat (52 - binade ?x))"
    by (simp add: pow2_int [OF s])
  finally have eq: "?x / 2 powi (binade ?x - 52) = of_int (int n * 2 ^ nat (52 - binade ?x))" .
  have "?x \<noteq> 0" using False by simp
  then show ?thesis using eq by (rule binary64_exact)
qed

lemma floor_binary64:
  assumes pos: "0 < x" and e: "binade x \<le> 52"
    and lo: "of_int q \<le> x" and hi: "x + d \<le> of_int q + 1"
    and d: "2 powi (binade x - 53) < d"
  shows "\<lfloor>binary64 x\<rfloor> = q"
proof -
  define s where "s = nat (52 - binade x)"
  define m where "m = round_half_even (x / 2 powi (binade x - 52))"
  have sc: "(2::rat) powi (binade x - 52) = 1 / 2 ^ s"
    unfolding s_def using e by (rule pow2_scale)
  have y: "x / 2 powi (binade x - 52) = x * 2 ^ s"
    by (simp add: sc)
  have b: "binary64 x = of_int m / 2 ^ s"
    using pos by (simp add: binary64_eq m_def sc)
  have "of_int (q * 2 ^ s) \<le> x * 2 ^ s"
    using lo by simp
  then have m_lo: "q * 2 ^ s \<le> m"
    unfolding m_def y by (rule round_half_even_ge)
  have half: "1 / 2 < d * 2 ^ s"
  proof -
    have "(2::rat) powi (binade x - 53) = 2 powi (binade x - 52) / 2"
      by (simp add: power_int_diff)
    also have "\<dots> = 1 / 2 / 2 ^ s"
      by (simp add: sc)
    finally have "1 / 2 / 2 ^ s < d" using d by simp
    then show ?thesis by (simp add: divide_less_eq)
  qed
  have "x * 2 ^ s + d * 2 ^ s \<le> (of_int q + 1) * 2 ^ s"
    using hi by (simp flip: distrib_right)
  with half have "x * 2 ^ s < of_int ((q + 1) * 2 ^ s) - 1 / 2"
    by simp
  then have m_hi: "m < (q + 1) * 2 ^ s"
    unfolding m_def y by (rule round_half_even_less)
  have 1: "of_int q \<le> binary64 x"
  proof -
    have "(of_int (q * 2 ^ s) :: rat) \<le> of_int m"
      using m_lo by (simp only: of_int_le_iff)
    then show ?thesis by (simp add: b le_divide_eq)
  qed
  have 2: "binary64 x < of_int q + 1"
  proof -
    have "(of_int m :: rat) < of_int ((q + 1) * 2 ^ s)"
      using m_hi by (simp only: of_int_less_iff)
    then show ?thesis by (simp add: b divide_less_eq)
  qed
  from 1 2 show ?thesis by (simp add: floor_eq_iff)
qed

lemma floor_binary64_div:
  fixes a b :: nat
  assumes a: "a < 2 ^ 53" and b: "0 < b"
  shows "\<lfloor>binary64 (of_nat a / of_nat b)\<rfloor> = int (a div b)"
proof (cases "a = 0")
  case True
  then show ?thesis by (simp add: binary64_def)
next
  case False
  let ?x = "of_nat a / of_nat b :: rat"
  have pos: "0 < ?x" using False b by simp
  have a': "(of_nat a :: rat) < 2 ^ 53"
  proof -
    have "(of_nat a :: rat) < of_nat (2 ^ 53)"
      using a by (simp only: of_nat_less_iff)
    then show ?thesis by simp
  qed
  have b1: "(1::rat) \<le> of_nat b"
    using b by (simp add: Suc_le_eq)
  have "?x \<le> of_nat a"
    using b1 by (simp add: divide_le_eq mult_le_cancel_left1)
  with a' have "?x < 2 powi 53" by simp
  with pos have "binade ?x < 53" by (rule binade_less)
  then have e: "binade ?x \<le> 52" by simp
  have lo: "of_int (int (a div b)) \<le> ?x"
  proof -
    have "(a div b) * b \<le> a" by simp
    then have "(of_nat ((a div b) * b) :: rat) \<le> of_nat a"
      by (simp only: of_nat_le_iff)
    then show ?thesis using b by (simp add: le_divide_eq)
  qed
  have hi: "?x + 1 / of_nat b \<le> of_int (int (a div b)) + 1"
  proof -
    have "a mod b < b" using b by simp
    moreover have "a = a div b * b + a mod b" by simp
    ultimately have "a + 1 \<le> a div b * b + b" by linarith
    then have "a + 1 \<le> (a div b + 1) * b" by simp
    then have "(of_nat (a + 1) :: rat) \<le> of_nat ((a div b + 1) * b)"
      by (simp only: of_nat_le_iff)
    then have "(of_nat a + 1) / of_nat b \<le> (of_nat (a div b) + 1 :: rat)"
      using b by (simp add: divide_le_eq algebra_simps)
    then show ?thesis by (simp add: add_divide_distrib)
  qed
  have d: "2 powi (binade ?x - 53) < 1 / (of_nat b :: rat)"
  proof -
    have "2 powi binade ?x \<le> ?x"
      using pos by (rule binade_pos)
    also have "?x < 2 ^ 53 / of_nat b"
      using a' b by (simp add: divide_strict_right_mono)
    finally have "2 powi binade ?x / 2 ^ 53 < 1 / (of_nat b :: rat)"
      by (simp add: divide_less_eq)
    then show ?thesis by (simp add: power_int_diff)
  qed
  show ?thesis using pos e lo hi d by (rule floor_binary64)
qed

lemma floor_binary64_small:
  fixes a :: nat
  assumes a: "a < 2 ^ 53" and d: "2 ^ 53 \<le> d"
  shows "\<lfloor>binary64 (of_nat a / d)\<rfloor> = 0"
proof (cases "a = 0")
  case True
  then show ?thesis by (simp add: binary64_def)
next
  case False
  let ?x = "of_nat a / d :: rat"
  have dpos: "0 < d" using d by (rule less_le_trans [rotated]) simp
  have pos: "0 < ?x" using False dpos by simp
  have "a + 1 \<le> 2 ^ 53" using a by simp
  then have "(of_nat (a + 1) :: rat) \<le> of_nat (2 ^ 53)"
    by (simp only: of_nat_le_iff)
  then have a': "(of_nat a :: rat) \<le> 2 ^ 53 - 1" by simp
  have x1: "?x \<le> 1 - 1 / 2 ^ 53"
  proof -
    have "?x \<le> (2 ^ 53 - 1) / d"
      using a' dpos by (simp add: divide_right_mono)
    also have "\<dots> \<le> (2 ^ 53 - 1) / 2 ^ 53"
      using d by (intro divide_left_mono) simp_all
    also have "\<dots> = 1 - 1 / 2 ^ 53" by simp
    finally show ?thesis .
  qed
  then have "?x < 1" by (rule le_less_trans) simp
  then have "?x < 2 powi 0" by simp
  with pos have e0: "binade ?x < 0" by (rule binade_less)
  then have e: "binade ?x \<le> 52" by simp
  have lo: "of_int 0 \<le> ?x" using pos by simp
  have hi: "?x + 1 / 2 ^ 53 \<le> of_int 0 + 1" using x1 by linarith
  have "(2::rat) powi (binade ?x - 53) < 2 powi (- 53)"
    using e0 by (simp only: pow2_less_iff)
  moreover have "(2::rat) powi (- 53) = 1 / 2 ^ 53"
    by (simp add: power_int_minus_divide)
  ultimately have dd: "2 powi (binade ?x - 53) < 1 / (2 ^ 53 :: rat)"
    by (simp only:)
  show ?thesis using pos e lo hi dd by (rule floor_binary64)
qed

lemma binary64_ge_pow2:
  assumes "2 powi n \<le> x"
  shows "2 powi n \<le> binary64 x"
proof -
  have pos: "0 < x"
    using pow2_pos [of n] assms by (rule less_le_trans)
  let ?t = "(2::rat) powi (binade x - 52)"
  have "2 powi binade x \<le> x"
    using pos by (rule binade_pos)
  then have "(2::rat) powi binade x / ?t \<le> x / ?t"
    by (simp add: divide_right_mono)
  then have "(2::rat) ^ 52 \<le> x / ?t"
    by (simp add: power_int_diff)
  then have "of_int (2 ^ 52) \<le> x / ?t" by simp
  then have "2 ^ 52 \<le> round_half_even (x / ?t)"
    by (rule round_half_even_ge)
  then have "(of_int (2 ^ 52) :: rat) \<le> of_int (round_half_even (x / ?t))"
    by (simp only: of_int_le_iff)
  then have "of_int (2 ^ 52) * ?t \<le> of_int (round_half_even (x / ?t)) * ?t"
    by (simp add: mult_right_mono)
  then have "2 powi binade x \<le> binary64 x"
    using pos by (simp add: binary64_eq power_int_diff)
  moreover have "(2::rat) powi n \<le> 2 powi binade x"
    using binade_ge [OF assms] by (intro power_int_increasing) simp_all
  ultimately show ?thesis by simp
qed

lemma binary64_error:
  assumes "x \<noteq> 0"
  shows "\<bar>binary64 x - x\<bar> \<le> 2 powi (binade x - 53)"
proof -
  let ?t = "(2::rat) powi (binade x - 52)"
  have t: "0 < ?t" by simp
  have "\<bar>binary64 x - x\<bar> = \<bar>of_int (round_half_even (x / ?t)) * ?t - x / ?t * ?t\<bar>"
    using assms by (simp add: binary64_eq)
  also have "\<dots> = \<bar>of_int (round_half_even (x / ?t)) - x / ?t\<bar> * ?t"
    by (simp only: left_diff_distrib [symmetric] abs_mult) simp
  also have "\<dots> \<le> 1 / 2 * ?t"
    using round_half_even_error [of "x / ?t"] t by (intro mult_right_mono) simp_all
  also have "\<dots> = 2 powi (binade x - 53)"
    by (simp add: power_int_diff)
  finally show ?thesis .
qed

lemma binary64_0 [simp]: "binary64 0 = 0"
  by (simp add: binary64_def)

lemma binary64_nat_numeral:
  "numeral k < (2::nat) ^ 53 \<Longrightarrow> binary64 (numeral k) = numeral k"
  using binary64_of_nat [of "numeral k"] by simp

lemma binary64_1: "binary64 1 = 1"
  using binary64_of_nat [of 1] by simp

lemma binary64_half:
  fixes n :: nat
  assumes "n < 2 ^ 53"
  shows "binary64 (of_nat n / 2) = of_nat n / 2"
proof (cases "n = 0")
  case True
  then show ?thesis by simp
next
  case False
  let ?x = "of_nat n / 2 :: rat"
  have pos: "0 < ?x" using False by simp
  have "(of_nat n :: rat) < of_nat (2 ^ 53)"
    using assms by (simp only: of_nat_less_iff)
  then have "?x < 2 powi 52" by simp
  with pos have e: "binade ?x < 52" by (rule binade_less)
  then have sc: "(2::rat) powi (binade ?x - 52) = 1 / 2 ^ nat (52 - binade ?x)"
    by (intro pow2_scale) simp
  obtain j where j: "nat (52 - binade ?x) = Suc j"
    using e by (cases "nat (52 - binade ?x)") simp_all
  have eq: "?x / 2 powi (binade ?x - 52) = of_int (int n * 2 ^ j)"
    by (simp add: sc j)
  have "?x \<noteq> 0" using pos by simp
  then show ?thesis using eq by (rule binary64_exact)
qed

lemma binary64_half_numeral:
  "numeral k < (2::nat) ^ 53 \<Longrightarrow> binary64 (numeral k / 2) = numeral k / 2"
  using binary64_half [of "numeral k"] by simp

lemmas number_simps =
  jadd_def jsub_def jmul_def jdiv_def binary64_nat_numeral binary64_1 binary64_half_numeral

lemma floor_rat_numeral:
  "\<lfloor>(numeral a :: rat) / numeral b\<rfloor> = numeral a div numeral b"
  using floor_divide_of_int_eq [of "numeral a" "numeral b", where ?'a = rat] by simp

section \<open>Properties of the sampler and the renderer\<close>

subsection \<open>Dimensions of the raster buffer\<close>

lemma cell_exact:
  fixes p g :: nat
  assumes "p + g < 2 ^ 53"
  shows "jadd (of_nat p) (of_nat g) = of_nat (p + g)"
  using binary64_of_nat [OF assms] by (simp add: jadd_def)

lemma cell_large:
  fixes p g :: nat
  assumes "2 ^ 53 \<le> p + g"
  shows "2 ^ 53 \<le> jadd (of_nat p) (of_nat g)"
proof -
  have "(of_nat (2 ^ 53) :: rat) \<le> of_nat (p + g)"
    using assms by (simp only: of_nat_le_iff)
  then have "(2::rat) powi 53 \<le> of_nat p + of_nat g" by simp
  then have "(2::rat) powi 53 \<le> binary64 (of_nat p + of_nat g)"
    by (rule binary64_ge_pow2)
  then show ?thesis by (simp add: jadd_def)
qed

lemma floor_jdiv_cell:
  fixes a p g :: nat
  assumes a: "a < 2 ^ 53" and pg: "0 < p + g"
  shows "\<lfloor>jdiv (of_nat a) (jadd (of_nat p) (of_nat g))\<rfloor> = int (a div (p + g))"
proof (cases "p + g < 2 ^ 53")
  case True
  then show ?thesis
    using floor_binary64_div [OF a pg] by (simp add: cell_exact jdiv_def)
next
  case False
  then have big: "2 ^ 53 \<le> p + g" by simp
  then have "\<lfloor>binary64 (of_nat a / jadd (of_nat p) (of_nat g))\<rfloor> = 0"
    using a by (intro floor_binary64_small cell_large)
  moreover have "a div (p + g) = 0"
    using a big by simp
  ultimately show ?thesis by (simp add: jdiv_def)
qed

lemma cell_nonzero:
  fixes p g :: nat
  assumes "0 < p + g"
  shows "jadd (of_nat p) (of_nat g) \<noteq> 0"
proof (cases "p + g < 2 ^ 53")
  case True
  then show ?thesis using assms by (simp add: cell_exact del: of_nat_add)
next
  case False
  then have "2 ^ 53 \<le> p + g" by simp
  then have "(2 ^ 53 :: rat) \<le> jadd (of_nat p) (of_nat g)" by (rule cell_large)
  then show ?thesis by auto
qed

lemma createSmallCanvas_div:
  assumes "0 < pixelSize cfg + gapSize cfg"
    and "width c < 2 ^ 53" and "height c < 2 ^ 53"
  shows "createSmallCanvas cfg c =
           Some \<lparr>width = width c div (pixelSize cfg + gapSize cfg),
                 height = height c div (pixelSize cfg + gapSize cfg)\<rparr>"
  using assms
  by (simp add: createSmallCanvas_def Let_def cell_nonzero floor_jdiv_cell del: of_nat_add)

text \<open>
  C1. For a canvas of width \<open>W\<close> and height \<open>H\<close> and sizes with \<open>pixelSize + gapSize > 0\<close>,
  the small canvas that \<open>createSmallCanvas\<close> returns is \<open>\<lfloor>W / (pixelSize + gapSize)\<rfloor>\<close> wide and
  \<open>\<lfloor>H / (pixelSize + gapSize)\<rfloor>\<close> high, the quotients taken exactly: rounding the quotient
  to a Number before \<open>Math.floor\<close> does not change the floor. A canvas dimension is an
  unsigned 32-bit integer in the browser, so the bound \<open>2\<^sup>5\<^sup>3\<close> holds for every canvas.
\<close>

theorem raster_dimensions:
  assumes "0 < pixelSize cfg + gapSize cfg"
    and "width c < 2 ^ 53" and "height c < 2 ^ 53"
  shows "createSmallCanvas cfg c =
           Some \<lparr>width = nat \<lfloor>(of_nat (width c) :: rat) / of_nat (pixelSize cfg + gapSize cfg)\<rfloor>,
                 height = nat \<lfloor>(of_nat (height c) :: rat) / of_nat (pixelSize cfg + gapSize cfg)\<rfloor>\<rparr>"
proof -
  have "\<lfloor>(of_nat a :: rat) / of_nat (pixelSize cfg + gapSize cfg)\<rfloor>
          = int (a div (pixelSize cfg + gapSize cfg))" for a
    by (simp add: floor_divide_of_nat_eq del: of_nat_add)
  then show ?thesis
    using createSmallCanvas_div [OF assms] by simp
qed

text \<open>With the script's values, a canvas of 640 by 480 and both sizes 3, the raster is 106 by 80.\<close>

theorem raster_dimensions_witness:
  "0 < pixelSize settings + gapSize settings
   \<and> width mainCanvas < 2 ^ 53 \<and> height mainCanvas < 2 ^ 53
   \<and> createSmallCanvas settings mainCanvas = Some \<lparr>width = 106, height = 80\<rparr>"
  using raster_dimensions [of settings mainCanvas]
  by (simp add: settings_def mainCanvas_def floor_rat_numeral)

subsection \<open>Grayscale\<close>

text \<open>
  C5, as stated, fails: the quotient by 3 is rounded to a Number. For the bytes 1, 0, 0 the
  result is the binary64 value next to one third, which is not one third.
\<close>

theorem grayscale_inexact_counterexample:
  "convertToGrayscale 1 0 0 = 6004799503160661 / 18014398509481984
   \<and> convertToGrayscale 1 0 0 \<noteq> (1 + 0 + 0) / 3"
  by code_simp

lemma sum_bytes_exact:
  fixes r g b :: nat
  assumes "r \<le> 255" "g \<le> 255" "b \<le> 255"
  shows "jadd (jadd (of_nat r) (of_nat g)) (of_nat b) = of_nat (r + g + b)"
proof -
  have "r + g < 2 ^ 53" and "r + g + b < 2 ^ 53"
    using assms by simp_all
  then have "binary64 (of_nat (r + g)) = of_nat (r + g)"
    and "binary64 (of_nat (r + g + b)) = of_nat (r + g + b)"
    by (simp_all only: binary64_of_nat)
  then show ?thesis by (simp add: jadd_def)
qed

lemma third_exact:
  fixes s :: nat
  assumes "s \<le> 765" and "3 dvd s"
  shows "binary64 (of_nat s / 3) = of_nat s / 3"
proof -
  from assms(2) obtain k where k: "s = 3 * k" ..
  have "k < 2 ^ 53" using assms(1) k by simp
  then have "binary64 (of_nat k) = of_nat k" by (rule binary64_of_nat)
  then show ?thesis by (simp add: k)
qed

lemma third_error:
  fixes s :: nat
  assumes "s \<le> 765"
  shows "\<bar>binary64 (of_nat s / 3) - of_nat s / 3\<bar> \<le> 1 / 2 ^ 46"
proof (cases "s = 0")
  case True
  then show ?thesis by simp
next
  case False
  let ?x = "of_nat s / 3 :: rat"
  have pos: "0 < ?x" using False by simp
  have "(of_nat s :: rat) \<le> of_nat 765"
    using assms by (simp only: of_nat_le_iff)
  then have "?x < 2 powi 8" by simp
  with pos have "binade ?x < 8" by (rule binade_less)
  then have "binade ?x - 53 \<le> - 46" by simp
  then have "(2::rat) powi (binade ?x - 53) \<le> 2 powi (- 46)"
    by (intro power_int_increasing) simp_all
  moreover have "(2::rat) powi (- 46) = 1 / 2 ^ 46"
    by (simp add: power_int_minus_divide)
  moreover have "\<bar>binary64 ?x - ?x\<bar> \<le> 2 powi (binade ?x - 53)"
    using pos by (intro binary64_error) simp
  ultimately show ?thesis by (simp only:)
qed

lemma third_inexact:
  fixes s :: nat
  assumes "s \<le> 765" and eq: "binary64 (of_nat s / 3) = of_nat s / 3"
  shows "3 dvd s"
proof (cases "s = 0")
  case True
  then show ?thesis by simp
next
  case False
  let ?x = "of_nat s / 3 :: rat"
  have pos: "0 < ?x" using False by simp
  have "(of_nat s :: rat) \<le> of_nat 765"
    using assms(1) by (simp only: of_nat_le_iff)
  then have "?x < 2 powi 8" by simp
  with pos have e: "binade ?x < 8" by (rule binade_less)
  define k where "k = nat (52 - binade ?x)"
  define m where "m = round_half_even (?x / 2 powi (binade ?x - 52))"
  have sc: "(2::rat) powi (binade ?x - 52) = 1 / 2 ^ k"
    unfolding k_def using e by (intro pow2_scale) simp
  have "binary64 ?x = of_int m / 2 ^ k"
    using pos by (simp add: binary64_eq m_def sc)
  with eq have "of_int m / 2 ^ k = ?x" by simp
  then have "(of_int (3 * m) :: rat) = of_int (int s * 2 ^ k)"
    by (simp add: field_simps)
  then have "3 * m = int s * 2 ^ k"
    by (simp only: of_int_eq_iff)
  then have "3 dvd int s * 2 ^ k"
    by (metis dvd_triv_left)
  moreover have "coprime (3::int) (2 ^ k)"
    by simp
  ultimately have "3 dvd int s"
    by (simp add: coprime_dvd_mult_left_iff)
  then show ?thesis by presburger
qed

text \<open>
  C5, amended. For bytes \<open>r\<close>, \<open>g\<close>, \<open>b\<close> the result of \<open>convertToGrayscale\<close> is
  \<open>(r + g + b) / 3\<close> rounded to the nearest Number. It is exactly \<open>(r + g + b) / 3\<close> if and
  only if \<open>r + g + b\<close> is a multiple of 3, and it is never further than \<open>2\<^sup>-\<^sup>4\<^sup>6\<close> from it.
\<close>

theorem grayscale_rounded:
  fixes r g b :: nat
  assumes "r \<le> 255" and "g \<le> 255" and "b \<le> 255"
  shows "convertToGrayscale (of_nat r) (of_nat g) (of_nat b) = binary64 (of_nat (r + g + b) / 3)
       \<and> (convertToGrayscale (of_nat r) (of_nat g) (of_nat b) = of_nat (r + g + b) / 3
            \<longleftrightarrow> 3 dvd (r + g + b))
       \<and> \<bar>convertToGrayscale (of_nat r) (of_nat g) (of_nat b) - of_nat (r + g + b) / 3\<bar>
            \<le> 1 / 2 ^ 46"
proof -
  have s: "r + g + b \<le> 765" using assms by simp
  have c: "convertToGrayscale (of_nat r) (of_nat g) (of_nat b) = binary64 (of_nat (r + g + b) / 3)"
    unfolding convertToGrayscale_def sum_bytes_exact [OF assms] by (simp add: jdiv_def)
  show ?thesis
    unfolding c
    using third_exact [OF s] third_inexact [OF s] third_error [OF s] by blast
qed

theorem grayscale_rounded_witness:
  "(1::nat) \<le> 255 \<and> (0::nat) \<le> 255
   \<and> convertToGrayscale 1 0 0 \<noteq> 1 / 3
   \<and> \<bar>convertToGrayscale 1 0 0 - 1 / 3\<bar> \<le> 1 / 2 ^ 46
   \<and> convertToGrayscale 3 0 0 = 1"
  using grayscale_rounded [of 1 0 0, THEN conjunct2]
    grayscale_rounded [of 3 0 0, THEN conjunct2]
  by simp

subsection \<open>Contrast\<close>

text \<open>
  C3. Whatever the grayscale input and whatever the contrast factor, negative or above
  one included, the result of \<open>adjustContrast\<close> lies between 0 and 255.
\<close>

theorem contrast_clamped:
  "0 \<le> adjustContrast cfg g \<and> adjustContrast cfg g \<le> 255"
  by (simp add: adjustContrast_def Let_def)

subsection \<open>The renderer\<close>

lemma paint_append: "paint (cs @ ds) ctx = paint ds (paint cs ctx)"
  by (simp add: paint_def)

lemma index_in_range:
  fixes x y w h :: nat
  assumes "x < w" and "y < h"
  shows "y * w + x < w * h"
proof -
  have "y * w + x < y * w + w" using assms(1) by simp
  also have "\<dots> = (y + 1) * w" by simp
  also have "\<dots> \<le> h * w"
    using assms(2) by (intro mult_le_mono1) simp
  finally show ?thesis by (simp add: mult.commute)
qed

lemma drawSample_paint:
  assumes "length data = 4 * width sc * height sc" and "x < width sc" and "y < height sc"
  shows "drawSample cfg data sc y x (ctx :: context2d)
           = Some (paint [sample_circle cfg data (width sc) (x, y)] ctx)"
proof -
  have "y * width sc + x < width sc * height sc"
    using assms(2,3) by (rule index_in_range)
  then have "(y * width sc + x) * 4 + 2 < length data"
    using assms(1) by simp
  then show ?thesis
    by (simp add: drawSample_def sample_circle_def drawCircle_def paint_def Let_def
          adjustContrast_def convertToGrayscale_def mult.commute)
qed

lemma drawRow_paint:
  assumes "length data = 4 * width sc * height sc" and "y < height sc" and "x \<le> width sc"
  shows "drawRow cfg data sc y x (ctx :: context2d)
           = Some (paint (map (\<lambda>x. sample_circle cfg data (width sc) (x, y)) [x ..< width sc]) ctx)"
  using assms(3)
proof (induction "width sc - x" arbitrary: x ctx)
  case 0
  then have "x = width sc" by simp
  then show ?case by (simp add: paint_def)
next
  case (Suc n)
  then have x: "x < width sc" by simp
  have step: "drawRow cfg data sc y x ctx
                = drawRow cfg data sc y (x + 1) (paint [sample_circle cfg data (width sc) (x, y)] ctx)"
    using x drawSample_paint [OF assms(1) x assms(2)] by simp
  have "n = width sc - (x + 1)" and "x + 1 \<le> width sc"
    using Suc.hyps(2) x by simp_all
  then have "drawRow cfg data sc y (x + 1) (paint [sample_circle cfg data (width sc) (x, y)] ctx)
               = Some (paint (map (\<lambda>x. sample_circle cfg data (width sc) (x, y)) [x + 1 ..< width sc])
                         (paint [sample_circle cfg data (width sc) (x, y)] ctx))"
    by (rule Suc.hyps(1))
  also have "\<dots> = Some (paint (map (\<lambda>x. sample_circle cfg data (width sc) (x, y)) [x ..< width sc]) ctx)"
    using x by (simp add: paint_append [symmetric] upt_conv_Cons del: upt_Suc)
  finally show ?case using step by simp
qed

lemma drawRows_paint:
  assumes "length data = 4 * width sc * height sc" and "y \<le> height sc"
  shows "drawRows cfg data sc y (ctx :: context2d)
           = Some (paint (concat (map (\<lambda>y. map (\<lambda>x. sample_circle cfg data (width sc) (x, y)) [0 ..< width sc])
                                  [y ..< height sc])) ctx)"
  using assms(2)
proof (induction "height sc - y" arbitrary: y ctx)
  case 0
  then have "y = height sc" by simp
  then show ?case by (simp add: paint_def)
next
  case (Suc n)
  then have y: "y < height sc" by simp
  let ?row = "\<lambda>y. map (\<lambda>x. sample_circle cfg data (width sc) (x, y)) [0 ..< width sc]"
  have step: "drawRows cfg data sc y ctx = drawRows cfg data sc (y + 1) (paint (?row y) ctx)"
    using y drawRow_paint [OF assms(1) y, of 0] by simp
  have "n = height sc - (y + 1)" and "y + 1 \<le> height sc"
    using Suc.hyps(2) y by simp_all
  then have "drawRows cfg data sc (y + 1) (paint (?row y) ctx)
               = Some (paint (concat (map ?row [y + 1 ..< height sc])) (paint (?row y) ctx))"
    by (rule Suc.hyps(1))
  also have "\<dots> = Some (paint (concat (map ?row [y ..< height sc])) ctx)"
    using y by (simp add: paint_append [symmetric] upt_conv_Cons del: upt_Suc)
  finally show ?case using step by simp
qed

lemma rendering_row_major:
  "concat (map (\<lambda>y. map (\<lambda>x. f (x, y)) [0 ..< w]) [0 ..< h]) = map f (row_major w h)"
  by (simp add: row_major_def map_concat comp_def)

lemma drawPixelatedImage_paint:
  assumes "length data = 4 * width sc * height sc"
  shows "drawPixelatedImage cfg data sc ctx
           = Some (paint (map (sample_circle cfg data (width sc)) (row_major (width sc) (height sc))) ctx)"
  using drawRows_paint [OF assms, of 0 cfg ctx]
  by (simp add: drawPixelatedImage_def rendering_row_major)

lemma set_row_major: "set (row_major w h) = {(x, y). x < w \<and> y < h}"
  by (auto simp: row_major_def)

lemma row_major_2_2: "row_major 2 2 = [(0, 0), (1, 0), (0, 1), (1, 1)]"
  by (simp add: row_major_def upt_rec)

lemma getImageData_length:
  assumes "getImageData bm sc = Some data"
  shows "length data = 4 * width sc * height sc"
proof -
  have "sum_list (map (\<lambda>i. length (case bm (i mod w) (i div w) of (r, g, b, a) \<Rightarrow> [r, g, b, a])) xs)
          = 4 * length xs" for w and xs :: "nat list"
    by (induction xs) (simp_all split: prod.splits)
  then show ?thesis
    using assms by (auto simp: getImageData_def length_concat comp_def split: if_splits)
qed

text \<open>
  Whole numbers below \<open>2\<^sup>5\<^sup>3\<close> and their halves are Numbers, so the centre and the radius
  of a disc are the exact products and the exact half.
\<close>

lemma sample_circle_geometry:
  assumes "x * (pixelSize cfg + gapSize cfg) < 2 ^ 53"
    and "y * (pixelSize cfg + gapSize cfg) < 2 ^ 53"
    and "pixelSize cfg + gapSize cfg < 2 ^ 53"
  shows "centre_x (sample_circle cfg data w (x, y)) = of_nat (x * (pixelSize cfg + gapSize cfg))"
    and "centre_y (sample_circle cfg data w (x, y)) = of_nat (y * (pixelSize cfg + gapSize cfg))"
    and "circle_radius (sample_circle cfg data w (x, y)) = of_nat (pixelSize cfg) / 2"
proof -
  have cell: "jadd (of_nat (pixelSize cfg)) (of_nat (gapSize cfg))
                = of_nat (pixelSize cfg + gapSize cfg)"
    using assms(3) by (rule cell_exact)
  have "jmul (of_nat n) (of_nat (pixelSize cfg + gapSize cfg))
          = of_nat (n * (pixelSize cfg + gapSize cfg))"
    if "n * (pixelSize cfg + gapSize cfg) < 2 ^ 53" for n
    using binary64_of_nat [OF that] by (simp add: jmul_def)
  then show "centre_x (sample_circle cfg data w (x, y)) = of_nat (x * (pixelSize cfg + gapSize cfg))"
    and "centre_y (sample_circle cfg data w (x, y)) = of_nat (y * (pixelSize cfg + gapSize cfg))"
    using assms(1,2) by (simp_all add: sample_circle_def Let_def cell del: of_nat_add of_nat_mult)
  have "pixelSize cfg < 2 ^ 53" using assms(3) by simp
  then show "circle_radius (sample_circle cfg data w (x, y)) = of_nat (pixelSize cfg) / 2"
    using binary64_half [of "pixelSize cfg"] by (simp add: sample_circle_def Let_def jdiv_def)
qed

text \<open>
  C2. \<open>applyPixelatedFilter\<close> runs \<open>drawPixelatedImage\<close> on the cleared context. For every
  raster buffer (four bytes for each of \<open>width * height\<close> samples) the renderer then returns
  a context that holds exactly the discs of \<open>sample_circle\<close>, one for each sample, in
  row-major order, nothing of what was painted before, and the fill style of the last disc.
\<close>

theorem renderer_row_major:
  assumes "length data = 4 * width sc * height sc"
  shows "drawPixelatedImage cfg data sc (clearMainCanvas ctx)
           = Some \<lparr>fillStyle =
                     (if row_major (width sc) (height sc) = [] then fillStyle ctx
                      else fill (sample_circle cfg data (width sc)
                                   (last (row_major (width sc) (height sc))))),
                   painted =
                     map (sample_circle cfg data (width sc)) (row_major (width sc) (height sc))\<rparr>
       \<and> (createSmallCanvas cfg canvas = Some sc \<and> getImageData (video sc) sc = Some data
            \<longrightarrow> applyPixelatedFilter cfg canvas video ctx
                  = drawPixelatedImage cfg data sc (clearMainCanvas ctx))"
  using drawPixelatedImage_paint [OF assms, of cfg "clearMainCanvas ctx"]
  by (simp add: paint_def clearMainCanvas_def last_map applyPixelatedFilter_def)

lemma frame4_samples:
  "map (sample_circle settings frame4 2) [(0, 0), (1, 0), (0, 1), (1, 1)]
     = [\<lparr>fill = Rgba 128 128 128 1, centre_x = 0, centre_y = 0, circle_radius = 3 / 2\<rparr>,
        \<lparr>fill = Rgba 132 132 132 1, centre_x = 6, centre_y = 0, circle_radius = 3 / 2\<rparr>,
        \<lparr>fill = Rgba 255 255 255 1, centre_x = 0, centre_y = 6, circle_radius = 3 / 2\<rparr>,
        \<lparr>fill = Rgba 255 255 255 1, centre_x = 6, centre_y = 6, circle_radius = 3 / 2\<rparr>]"
  by (simp add: sample_circle_def frame4_def settings_def num_def number_simps Let_def)

lemma grid2_sampled:
  "createSmallCanvas settings \<lparr>width = 12, height = 12\<rparr> = Some grid2"
  using createSmallCanvas_div [of settings "\<lparr>width = 12, height = 12\<rparr>"]
  by (simp add: settings_def grid2_def)

lemma frame4_read:
  "getImageData (\<lambda>x y. (frame4 ! (4 * (y * 2 + x)), frame4 ! (4 * (y * 2 + x) + 1),
                         frame4 ! (4 * (y * 2 + x) + 2), frame4 ! (4 * (y * 2 + x) + 3))) grid2
     = Some frame4"
  by (simp add: getImageData_def grid2_def frame4_def upt_rec)

theorem renderer_row_major_witness:
  "length frame4 = 4 * width grid2 * height grid2
   \<and> applyPixelatedFilter settings \<lparr>width = 12, height = 12\<rparr>
        (\<lambda>sc x y. (frame4 ! (4 * (y * 2 + x)), frame4 ! (4 * (y * 2 + x) + 1),
                    frame4 ! (4 * (y * 2 + x) + 2), frame4 ! (4 * (y * 2 + x) + 3)))
        used_context
       = Some \<lparr>fillStyle = Rgba 255 255 255 1,
               painted =
                 [\<lparr>fill = Rgba 128 128 128 1, centre_x = 0, centre_y = 0, circle_radius = 3 / 2\<rparr>,
                  \<lparr>fill = Rgba 132 132 132 1, centre_x = 6, centre_y = 0, circle_radius = 3 / 2\<rparr>,
                  \<lparr>fill = Rgba 255 255 255 1, centre_x = 0, centre_y = 6, circle_radius = 3 / 2\<rparr>,
                  \<lparr>fill = Rgba 255 255 255 1, centre_x = 6, centre_y = 6, circle_radius = 3 / 2\<rparr>]\<rparr>"
proof -
  let ?video = "\<lambda>sc x y. (frame4 ! (4 * (y * 2 + x)), frame4 ! (4 * (y * 2 + x) + 1),
                            frame4 ! (4 * (y * 2 + x) + 2), frame4 ! (4 * (y * 2 + x) + 3))"
  have len: "length frame4 = 4 * width grid2 * height grid2"
    by (simp add: frame4_def grid2_def)
  have w: "width grid2 = 2" and h: "height grid2 = 2"
    by (simp_all add: grid2_def)
  have "applyPixelatedFilter settings \<lparr>width = 12, height = 12\<rparr> ?video used_context
          = Some \<lparr>fillStyle = fill (sample_circle settings frame4 2 (1, 1)),
                  painted = map (sample_circle settings frame4 2) [(0, 0), (1, 0), (0, 1), (1, 1)]\<rparr>"
    using renderer_row_major [OF len, of settings used_context "\<lparr>width = 12, height = 12\<rparr>" ?video]
      grid2_sampled frame4_read
    by (simp add: w h row_major_2_2)
  then show ?thesis
    using frame4_samples len by simp
qed

subsection \<open>Mid-grey\<close>

lemma adjustContrast_128: "adjustContrast cfg 128 = 128"
  by (simp add: adjustContrast_def Let_def jsub_def jmul_def jadd_def binary64_nat_numeral)

lemma convertToGrayscale_128: "convertToGrayscale 128 128 128 = 128"
  by (simp add: convertToGrayscale_def jadd_def jdiv_def binary64_nat_numeral)

lemma num_128: "num 128 = 128"
  by (simp add: num_def)

lemma grey_sample:
  assumes len: "length data = 4 * w * h"
    and grey: "\<forall>i < length data. i mod 4 \<noteq> 3 \<longrightarrow> data ! i = 128"
    and x: "x < w" and y: "y < h"
  shows "sample_circle cfg data w (x, y) = grey_circle cfg (x, y)"
proof -
  let ?i = "4 * (y * w + x)"
  have "y * w + x < w * h" using x y by (rule index_in_range)
  then have i: "?i + 3 < length data" using len by simp
  have "data ! ?i = 128"
  proof -
    have "?i < length data" and "?i mod 4 \<noteq> 3" using i by presburger+
    then show ?thesis using grey by blast
  qed
  moreover have "data ! (?i + 1) = 128"
  proof -
    have "?i + 1 < length data" and "(?i + 1) mod 4 \<noteq> 3" using i by presburger+
    then show ?thesis using grey by blast
  qed
  moreover have "data ! (?i + 2) = 128"
  proof -
    have "?i + 2 < length data" and "(?i + 2) mod 4 \<noteq> 3" using i by presburger+
    then show ?thesis using grey by blast
  qed
  moreover have "jdiv (jadd (jadd 128 128) 128) 3 = 128"
    using convertToGrayscale_128 by (simp add: convertToGrayscale_def)
  moreover have "max 0 (min 255 (jadd 128 (jmul (jsub 128 128) (contrast cfg)))) = 128"
    using adjustContrast_128 [of cfg] by (simp add: adjustContrast_def Let_def)
  ultimately show ?thesis
    by (simp add: sample_circle_def grey_circle_def num_128 Let_def)
qed

text \<open>
  C4. \<open>adjustContrast\<close> maps 128 to 128 for every contrast factor. So for a raster buffer
  whose red, green and blue bytes are all 128, the renderer paints the whole grid in the
  one colour \<open>rgba(128, 128, 128, 1)\<close>, whatever the contrast factor.
\<close>

theorem midgrey_fixed:
  "adjustContrast cfg 128 = 128
   \<and> (length data = 4 * width sc * height sc
        \<and> (\<forall>i < length data. i mod 4 \<noteq> 3 \<longrightarrow> data ! i = 128)
      \<longrightarrow> (\<exists>style. drawPixelatedImage cfg data sc (clearMainCanvas ctx)
             = Some \<lparr>fillStyle = style,
                     painted = map (grey_circle cfg) (row_major (width sc) (height sc))\<rparr>))"
proof (intro conjI impI)
  show "adjustContrast cfg 128 = 128" by (rule adjustContrast_128)
next
  assume a: "length data = 4 * width sc * height sc
             \<and> (\<forall>i < length data. i mod 4 \<noteq> 3 \<longrightarrow> data ! i = 128)"
  then have len: "length data = 4 * width sc * height sc"
    and grey: "\<forall>i < length data. i mod 4 \<noteq> 3 \<longrightarrow> data ! i = 128"
    by simp_all
  have "map (sample_circle cfg data (width sc)) (row_major (width sc) (height sc))
          = map (grey_circle cfg) (row_major (width sc) (height sc))"
  proof (rule map_cong [OF refl])
    fix p assume "p \<in> set (row_major (width sc) (height sc))"
    then obtain x y where "p = (x, y)" and "x < width sc" and "y < height sc"
      by (auto simp: set_row_major)
    then show "sample_circle cfg data (width sc) p = grey_circle cfg p"
      using grey_sample [OF len grey] by simp
  qed
  then show "\<exists>style. drawPixelatedImage cfg data sc (clearMainCanvas ctx)
             = Some \<lparr>fillStyle = style,
                     painted = map (grey_circle cfg) (row_major (width sc) (height sc))\<rparr>"
    using drawPixelatedImage_paint [OF len, of cfg "clearMainCanvas ctx"]
    by (simp add: paint_def clearMainCanvas_def)
qed

lemma grey4_grey: "\<forall>i < length grey4. i mod 4 \<noteq> 3 \<longrightarrow> grey4 ! i = 128"
proof (intro allI impI)
  fix i
  assume "i < length grey4" and "i mod 4 \<noteq> 3"
  then have "i < 16" and "i mod 4 \<noteq> 3"
    by (simp_all add: grey4_def)
  then have "i \<in> {0, 1, 2, 4, 5, 6, 8, 9, 10, 12, 13, 14}"
    by auto presburger
  then show "grey4 ! i = 128"
    by (auto simp: grey4_def)
qed

theorem midgrey_fixed_witness:
  "adjustContrast (settings\<lparr>contrast := 5\<rparr>) 128 = 128
   \<and> length grey4 = 4 * width grid2 * height grid2
   \<and> (\<exists>style. drawPixelatedImage (settings\<lparr>contrast := 5\<rparr>) grey4 grid2 (clearMainCanvas used_context)
         = Some \<lparr>fillStyle = style,
                 painted = map (grey_circle (settings\<lparr>contrast := 5\<rparr>))
                             [(0, 0), (1, 0), (0, 1), (1, 1)]\<rparr>)"
proof -
  have len: "length grey4 = 4 * width grid2 * height grid2"
    by (simp add: grey4_def grid2_def)
  have w: "width grid2 = 2" and h: "height grid2 = 2"
    by (simp_all add: grid2_def)
  show ?thesis
    using midgrey_fixed [of "settings\<lparr>contrast := 5\<rparr>" grey4 grid2 used_context] len grey4_grey
    by (simp add: w h row_major_2_2)
qed

section \<open>Properties of the recording controller\<close>

lemma handle_positive:
  assumes "\<forall>c \<in> set (recordedChunks s). 0 < size_blob c"
  shows "\<forall>c \<in> set (recordedChunks (handle e s)). 0 < size_blob c"
  using assms
  by (cases e)
     (auto simp: streamReady_def streamFailed_def recordClick_def stopClick_def start_def
        clearChunks_def ondataavailable_def onstop_def Let_def split: option.splits)

lemma run_positive:
  assumes "\<forall>c \<in> set (recordedChunks s). 0 < size_blob c"
  shows "\<forall>c \<in> set (recordedChunks (run es s)). 0 < size_blob c"
  using assms
proof (induction es arbitrary: s)
  case Nil
  then show ?case by simp
next
  case (Cons e es)
  from Cons.prems have "\<forall>c \<in> set (recordedChunks (handle e s)). 0 < size_blob c"
    by (rule handle_positive)
  then show ?case using Cons.IH by simp
qed

lemma handle_keeps_recorder: "mediaRecorder s \<noteq> None \<Longrightarrow> mediaRecorder (handle e s) \<noteq> None"
  by (cases e)
     (auto simp: streamReady_def streamFailed_def recordClick_def stopClick_def start_def
        clearChunks_def ondataavailable_def onstop_def Let_def split: option.splits)

lemma handle_appends:
  assumes "e \<noteq> RecordClick" and "mediaRecorder s \<noteq> None"
  shows "recordedChunks (handle e s) = recordedChunks s @ delivered [e]"
  using assms
  by (cases e)
     (auto simp: streamReady_def streamFailed_def stopClick_def
        ondataavailable_def onstop_def Let_def split: option.splits)

lemma delivered_Cons: "delivered (e # es) = delivered [e] @ delivered es"
  by (cases e) simp_all

lemma run_appends:
  assumes "RecordClick \<notin> set es" and "mediaRecorder s \<noteq> None"
  shows "recordedChunks (run es s) = recordedChunks s @ delivered es"
  using assms
proof (induction es arbitrary: s)
  case Nil
  then show ?case by simp
next
  case (Cons e es)
  from Cons.prems have e: "e \<noteq> RecordClick" and es: "RecordClick \<notin> set es"
    by auto
  have rec: "mediaRecorder (handle e s) \<noteq> None"
    using Cons.prems(2) by (rule handle_keeps_recorder)
  have "recordedChunks (run (e # es) s) = recordedChunks (handle e s) @ delivered es"
    using Cons.IH [OF es rec] by simp
  also have "\<dots> = (recordedChunks s @ delivered [e]) @ delivered es"
    using handle_appends [OF e Cons.prems(2)] by simp
  also have "\<dots> = recordedChunks s @ delivered (e # es)"
    using delivered_Cons [of e es] by simp
  finally show ?case .
qed

lemma recordClick_chunks:
  "mediaRecorder s \<noteq> None \<Longrightarrow> recordedChunks (snd (recordClick s)) = []"
  by (auto simp: recordClick_def clearChunks_def start_def Let_def)

lemma recordClick_recorder:
  "mediaRecorder s \<noteq> None \<Longrightarrow> mediaRecorder (snd (recordClick s)) \<noteq> None"
  by (auto simp: recordClick_def clearChunks_def start_def Let_def)

text \<open>
  While the recorder is recording, the record button is disabled and the stop button is
  enabled: this holds when the page is loaded and every handler keeps it.
\<close>

lemma handle_recording_buttons:
  assumes "\<forall>r. mediaRecorder s = Some r \<and> state r = Recording
             \<longrightarrow> disabled (recordButton s) \<and> \<not> disabled (stopButton s)"
  shows "\<forall>r. mediaRecorder (handle e s) = Some r \<and> state r = Recording
             \<longrightarrow> disabled (recordButton (handle e s)) \<and> \<not> disabled (stopButton (handle e s))"
  using assms
  by (cases e)
     (auto simp: streamReady_def streamFailed_def recordClick_def stopClick_def start_def stop_def
        clearChunks_def ondataavailable_def onstop_def Let_def split: option.splits if_splits)

lemma run_recording_buttons:
  assumes "\<forall>r. mediaRecorder s = Some r \<and> state r = Recording
             \<longrightarrow> disabled (recordButton s) \<and> \<not> disabled (stopButton s)"
  shows "\<forall>r. mediaRecorder (run es s) = Some r \<and> state r = Recording
             \<longrightarrow> disabled (recordButton (run es s)) \<and> \<not> disabled (stopButton (run es s))"
  using assms
proof (induction es arbitrary: s)
  case Nil
  then show ?case by simp
next
  case (Cons e es)
  have "\<forall>r. mediaRecorder (handle e s) = Some r \<and> state r = Recording
             \<longrightarrow> disabled (recordButton (handle e s)) \<and> \<not> disabled (stopButton (handle e s))"
    using Cons.prems by (rule handle_recording_buttons)
  then show ?case using Cons.IH by simp
qed

lemma reachable_recording_buttons:
  assumes "mediaRecorder (run es (loaded rb sb a)) = Some r" and "state r = Recording"
  shows "disabled (recordButton (run es (loaded rb sb a)))
       \<and> \<not> disabled (stopButton (run es (loaded rb sb a)))"
proof -
  have "\<forall>r. mediaRecorder (run es (loaded rb sb a)) = Some r \<and> state r = Recording
          \<longrightarrow> disabled (recordButton (run es (loaded rb sb a)))
              \<and> \<not> disabled (stopButton (run es (loaded rb sb a)))"
    by (rule run_recording_buttons) (simp add: loaded_def)
  with assms show ?thesis by blast
qed

lemmas page_defs =
  loaded_def streamReady_def streamFailed_def recordClick_def stopClick_def clearChunks_def
  ondataavailable_def onstop_def start_def stop_def Blob_def createObjectURL_def size_blob_def

subsection \<open>Start resets the chunk sequence\<close>

text \<open>
  C6. When the recorder exists, the record handler leaves \<open>recordedChunks\<close> empty whatever
  it held, and it empties it before it starts the recorder. On an inactive recorder the
  handler is the rest of its statements applied to the page with the chunks cleared. On a
  recorder that is already recording, as after a start with no stop since, \<^verbatim>\<open>start()\<close>
  throws and the handler ends, and the page it leaves is the one with the chunks cleared:
  no chunk from before the start is left in either case.
\<close>

theorem start_resets_chunks:
  assumes "mediaRecorder s = Some r"
  shows "recordedChunks (snd (recordClick s)) = []
       \<and> recordedChunks (clearChunks s) = []
       \<and> (state r = Inactive \<longrightarrow>
            recordClick s =
              (None, (clearChunks s)\<lparr>mediaRecorder := Some (r\<lparr>state := Recording\<rparr>),
                                      recordButton := (recordButton s)\<lparr>disabled := True\<rparr>,
                                      stopButton := (stopButton s)\<lparr>disabled := False\<rparr>\<rparr>))
       \<and> (state r = Recording \<longrightarrow>
            recordClick s = (Some InvalidStateError, clearChunks s))"
  using assms by (simp add: recordClick_def clearChunks_def start_def Let_def)

theorem start_resets_chunks_witness:
  "mediaRecorder (run [StreamReady, RecordClick, DataAvailable chunk1] page0)
     = Some \<lparr>state = Recording\<rparr>
   \<and> recordedChunks (run [StreamReady, RecordClick, DataAvailable chunk1] page0) = [chunk1]
   \<and> fst (recordClick (run [StreamReady, RecordClick, DataAvailable chunk1] page0))
     = Some InvalidStateError
   \<and> recordedChunks (run [StreamReady, RecordClick, DataAvailable chunk1, RecordClick] page0) = []
   \<and> mediaRecorder (run [StreamReady, RecordClick, DataAvailable chunk1, StopClick] page0)
     = Some \<lparr>state = Inactive\<rparr>
   \<and> recordedChunks (run [StreamReady, RecordClick, DataAvailable chunk1, StopClick] page0)
     = [chunk1]
   \<and> fst (recordClick (run [StreamReady, RecordClick, DataAvailable chunk1, StopClick] page0))
     = None
   \<and> recordedChunks
        (run [StreamReady, RecordClick, DataAvailable chunk1, StopClick, RecordClick] page0) = []"
proof -
  let ?s = "run [StreamReady, RecordClick, DataAvailable chunk1] page0"
  let ?t = "run [StreamReady, RecordClick, DataAvailable chunk1, StopClick] page0"
  have r: "mediaRecorder ?s = Some \<lparr>state = Recording\<rparr>"
    by (simp add: page_defs page0_def chunk1_def)
  have c: "recordedChunks ?s = [chunk1]"
    by (simp add: page_defs page0_def chunk1_def)
  have r': "mediaRecorder ?t = Some \<lparr>state = Inactive\<rparr>"
    by (simp add: page_defs page0_def chunk1_def)
  have c': "recordedChunks ?t = [chunk1]"
    by (simp add: page_defs page0_def chunk1_def)
  have 1: "run [StreamReady, RecordClick, DataAvailable chunk1, RecordClick] page0
             = snd (recordClick ?s)"
    by simp
  have 2: "run [StreamReady, RecordClick, DataAvailable chunk1, StopClick, RecordClick] page0
             = snd (recordClick ?t)"
    by simp
  show ?thesis
    unfolding 1 2
    using start_resets_chunks [OF r] start_resets_chunks [OF r'] r c r' c' by simp
qed

subsection \<open>Chunks and stop\<close>

text \<open>
  C7, as stated, fails: a stop does not empty the chunk sequence. After start, one chunk
  of four bytes, the stop click and the recorder's stop event, the recorder is inactive
  and the chunk is still there.
\<close>

theorem chunks_after_stop_counterexample:
  "recordedChunks (run [StreamReady, RecordClick, DataAvailable chunk1, StopClick, Stop] page0)
     = [chunk1]
   \<and> mediaRecorder (run [StreamReady, RecordClick, DataAvailable chunk1, StopClick, Stop] page0)
     = Some \<lparr>state = Inactive\<rparr>"
  by (simp add: page_defs page0_def chunk1_def)

text \<open>
  C7, amended. After a start with the recorder present, and until the next start, the
  chunk sequence is exactly the chunks of positive size delivered since that start, in
  order: stop clicks and stop events in between leave it as it is.
\<close>

theorem chunks_since_last_start:
  assumes "mediaRecorder s \<noteq> None" and "RecordClick \<notin> set es"
  shows "recordedChunks (run (RecordClick # es) s) = delivered es"
proof -
  have "recordedChunks (run es (snd (recordClick s)))
          = recordedChunks (snd (recordClick s)) @ delivered es"
    using assms(2) recordClick_recorder [OF assms(1)] by (rule run_appends)
  then show ?thesis
    using recordClick_chunks [OF assms(1)] by simp
qed

theorem chunks_since_last_start_witness:
  "mediaRecorder (streamReady page0) \<noteq> None
   \<and> RecordClick \<notin> set [DataAvailable chunk1, StopClick, Stop, DataAvailable chunk0]
   \<and> recordedChunks
        (run [RecordClick, DataAvailable chunk1, StopClick, Stop, DataAvailable chunk0]
           (streamReady page0)) = [chunk1]"
proof -
  have r: "mediaRecorder (streamReady page0) \<noteq> None"
    by (simp add: streamReady_def)
  have n: "RecordClick \<notin> set [DataAvailable chunk1, StopClick, Stop, DataAvailable chunk0]"
    by simp
  have d: "delivered [DataAvailable chunk1, StopClick, Stop, DataAvailable chunk0] = [chunk1]"
    by (simp add: size_blob_def chunk1_def chunk0_def)
  show ?thesis
    using chunks_since_last_start [OF r n] r n d by simp
qed

subsection \<open>The two buttons\<close>

text \<open>
  C8. In every state that a sequence of events reaches from the loaded page and in which
  the recorder exists, the record handler leaves the record button disabled and the stop
  button enabled, the stop handler leaves the record button enabled and the stop button
  disabled; after either, exactly one of the two buttons is enabled. When \<^verbatim>\<open>start()\<close>
  throws, the recorder was recording, and the buttons already stood that way.
\<close>

theorem buttons_lockstep:
  assumes "s = run es (loaded rb sb a)" and "mediaRecorder s \<noteq> None"
  shows "disabled (recordButton (snd (recordClick s)))
       \<and> \<not> disabled (stopButton (snd (recordClick s)))
       \<and> \<not> disabled (recordButton (stopClick s)) \<and> disabled (stopButton (stopClick s))
       \<and> disabled (recordButton (snd (recordClick s))) \<noteq> disabled (stopButton (snd (recordClick s)))
       \<and> disabled (recordButton (stopClick s)) \<noteq> disabled (stopButton (stopClick s))"
proof -
  from assms(2) obtain r where r: "mediaRecorder s = Some r" by auto
  have stop: "\<not> disabled (recordButton (stopClick s)) \<and> disabled (stopButton (stopClick s))"
    using r by (simp add: stopClick_def Let_def)
  have start: "disabled (recordButton (snd (recordClick s)))
             \<and> \<not> disabled (stopButton (snd (recordClick s)))"
  proof (cases "state r")
    case Inactive
    then show ?thesis
      using r by (simp add: recordClick_def clearChunks_def start_def Let_def)
  next
    case Recording
    then have "disabled (recordButton s) \<and> \<not> disabled (stopButton s)"
      using r reachable_recording_buttons [of es rb sb a r] by (simp add: assms(1))
    then show ?thesis
      using r Recording by (simp add: recordClick_def clearChunks_def start_def Let_def)
  qed
  from start stop show ?thesis by simp
qed

theorem buttons_lockstep_witness:
  "mediaRecorder (run [StreamReady] page0) \<noteq> None
   \<and> disabled (recordButton (snd (recordClick (run [StreamReady] page0))))
   \<and> \<not> disabled (stopButton (snd (recordClick (run [StreamReady] page0))))
   \<and> \<not> disabled (recordButton (stopClick (run [StreamReady] page0)))
   \<and> disabled (stopButton (stopClick (run [StreamReady] page0)))
   \<and> mediaRecorder (run [StreamReady, RecordClick] page0) = Some \<lparr>state = Recording\<rparr>
   \<and> fst (recordClick (run [StreamReady, RecordClick] page0)) = Some InvalidStateError
   \<and> disabled (recordButton (snd (recordClick (run [StreamReady, RecordClick] page0))))
   \<and> \<not> disabled (stopButton (snd (recordClick (run [StreamReady, RecordClick] page0))))"
proof -
  have p: "page0 = loaded \<lparr>disabled = False\<rparr> \<lparr>disabled = True\<rparr>
                     \<lparr>href = Address [], download = [], display = ''none''\<rparr>"
    by (simp add: page0_def)
  have r1: "mediaRecorder (run [StreamReady] page0) \<noteq> None"
    by (simp add: streamReady_def)
  have r2: "mediaRecorder (run [StreamReady, RecordClick] page0) = Some \<lparr>state = Recording\<rparr>"
    by (simp add: page_defs page0_def)
  have e2: "fst (recordClick (run [StreamReady, RecordClick] page0)) = Some InvalidStateError"
    by (simp add: page_defs page0_def)
  have r2': "mediaRecorder (run [StreamReady, RecordClick] page0) \<noteq> None"
    using r2 by simp
  have s1: "run [StreamReady] page0
              = run [StreamReady] (loaded \<lparr>disabled = False\<rparr> \<lparr>disabled = True\<rparr>
                                      \<lparr>href = Address [], download = [], display = ''none''\<rparr>)"
    by (simp only: p [symmetric])
  have s2: "run [StreamReady, RecordClick] page0
              = run [StreamReady, RecordClick]
                  (loaded \<lparr>disabled = False\<rparr> \<lparr>disabled = True\<rparr>
                     \<lparr>href = Address [], download = [], display = ''none''\<rparr>)"
    by (simp only: p [symmetric])
  show ?thesis
    using buttons_lockstep [OF s1 r1] buttons_lockstep [OF s2 r2'] r1 r2 e2 by blast
qed

subsection \<open>No recorder\<close>

text \<open>
  C9. While \<open>mediaRecorder\<close> is undefined, both click handlers return the page as it
  was, and the record handler throws nothing: chunk sequence, both buttons and the
  download link are unchanged.
\<close>

theorem clicks_without_recorder:
  assumes "mediaRecorder s = None"
  shows "recordClick s = (None, s) \<and> stopClick s = s"
  using assms by (simp add: recordClick_def stopClick_def)

theorem clicks_without_recorder_witness:
  "mediaRecorder (streamFailed page0) = None
   \<and> recordClick (streamFailed page0) = (None, streamFailed page0)
   \<and> stopClick (streamFailed page0) = streamFailed page0
   \<and> run [StreamFailed, RecordClick, StopClick] page0 = page0"
proof -
  have n: "mediaRecorder (streamFailed page0) = None"
    by (simp add: streamFailed_def page0_def loaded_def)
  have "run [StreamFailed, RecordClick, StopClick] page0
          = stopClick (snd (recordClick (streamFailed page0)))"
    by simp
  with clicks_without_recorder [OF n] n show ?thesis
    by (simp add: streamFailed_def)
qed

subsection \<open>Stored chunks are not empty\<close>

text \<open>
  C10. In every state reached from the loaded page by any sequence of events, every
  chunk in \<open>recordedChunks\<close> has a size greater than zero.
\<close>

theorem stored_chunks_positive:
  "\<forall>c \<in> set (recordedChunks (run es (loaded rb sb a))). 0 < size_blob c"
  by (rule run_positive) (simp add: loaded_def)

theorem stored_chunks_positive_witness:
  "recordedChunks (run [StreamReady, RecordClick, DataAvailable chunk0, DataAvailable chunk1] page0)
     = [chunk1]
   \<and> 0 < size_blob chunk1"
proof -
  have c: "recordedChunks
             (run [StreamReady, RecordClick, DataAvailable chunk0, DataAvailable chunk1] page0)
           = [chunk1]"
    by (simp add: page_defs page0_def chunk1_def chunk0_def)
  have "\<forall>c \<in> set (recordedChunks
            (run [StreamReady, RecordClick, DataAvailable chunk0, DataAvailable chunk1]
               (loaded \<lparr>disabled = False\<rparr> \<lparr>disabled = True\<rparr>
                  \<lparr>href = Address [], download = [], display = ''none''\<rparr>))). 0 < size_blob c"
    by (rule stored_chunks_positive)
  with c show ?thesis by (simp add: page0_def)
qed

end
